theory Spec2Isabelle
  imports Main
begin

section \<open>Data model of \<^verbatim>\<open>src/fallback-chain.ts\<close>\<close>

subsection \<open>Promises, thrown values and errors\<close>

text \<open>
  A JavaScript \<^verbatim>\<open>Error\<close> object is represented by its message. One kind of error
  is kept apart: Node's \<^verbatim>\<open>ERR_UNHANDLED_ERROR\<close>, which \<^verbatim>\<open>EventEmitter.emit\<close> throws for
  an \<^verbatim>\<open>'error'\<close> event that has no listener; it carries the payload of the event as its
  context, here the \<^verbatim>\<open>name\<close> and the \<^verbatim>\<open>error\<close> of \<^verbatim>\<open>{ name, error }\<close>. A value that is
  thrown (or with which a promise rejects) is either an instance of \<^verbatim>\<open>Error\<close> or any
  other value; of the latter only \<^verbatim>\<open>String(value)\<close> is ever used by the code.
\<close>

datatype js_error = Error string | ERR_UNHANDLED_ERROR string js_error

datatype thrown = Thrown_Error js_error | Thrown_Value string

text \<open>
  What a promise returned by a provider does once it has been created: it resolves
  with a value, it rejects with a thrown value, or it stays pending for ever. The
  number is the instant (in milliseconds after the call) at which it settles. A
  provider function that throws synchronously inside the \<^verbatim>\<open>async\<close> method
  \<^verbatim>\<open>executeWithTimeout\<close> is the same as a promise rejecting at instant 0.
\<close>

datatype 'a promise = Resolves nat 'a | Rejects nat thrown | Pending

subsection \<open>The interfaces \<^verbatim>\<open>Chainable\<close> and \<^verbatim>\<open>FallbackChainOptions\<close>\<close>

text \<open>
  The two capabilities are optional members. \<^verbatim>\<open>healthCheck\<close> takes no argument, so
  it is given by the promise it returns; \<^verbatim>\<open>execute\<close> maps the request to its promise.
  Within one call of the chain each of them is called at most once per entry.
  Priorities are taken to be integers.
\<close>

record ('r, 'v) Chainable =
  name :: string
  priority :: int
  execute :: "('r \<Rightarrow> 'v promise) option"
  healthCheck :: "bool promise option"

text \<open>
  The options as the caller passes them: every member may be absent
  (\<^verbatim>\<open>undefined\<close>), which is \<open>None\<close>. The callback is kept abstract (type \<open>'cb\<close>);
  its calls are recorded in the log of a run.
\<close>

record 'cb FallbackChainOptions =
  timeoutPerItem :: "int option"
  continueOnError :: "bool option"
  onFallback :: "'cb option"

text \<open>
  \<^verbatim>\<open>Required<FallbackChainOptions>\<close>, the options the chain stores. For the callback,
  \<open>None\<close> stands for the default \<^verbatim>\<open>() => {}\<close>.
\<close>

record 'cb RequiredOptions =
  timeoutPerItem :: int
  continueOnError :: bool
  onFallback :: "'cb option"

text \<open>
  The class extends Node's \<^verbatim>\<open>EventEmitter\<close>, so a chain also has the listeners that
  were registered on it. Of a listener only the event it listens to matters here:
  \<open>listeners\<close> holds one event name per registration.
\<close>

record ('r, 'v, 'cb) FallbackChain =
  items :: "('r, 'v) Chainable list"
  options :: "'cb RequiredOptions"
  listeners :: "string list"

section \<open>Construction and registration\<close>

text \<open>
  The constructor: the object literal assigned to \<^verbatim>\<open>this.options\<close>, and the new chain
  with its empty array. \<^verbatim>\<open>options.timeoutPerItem || 30000\<close> takes the default for every
  falsy value, which for an integer is \<^verbatim>\<open>undefined\<close> and 0;
  \<^verbatim>\<open>options.continueOnError ?? true\<close> takes it for an absent value only.
\<close>

definition required_options :: "'cb FallbackChainOptions \<Rightarrow> 'cb RequiredOptions" where
  "required_options opts =
     \<lparr> timeoutPerItem =
         (case FallbackChainOptions.timeoutPerItem opts of
            None \<Rightarrow> 30000
          | Some t \<Rightarrow> if t = 0 then 30000 else t),
       continueOnError =
         (case FallbackChainOptions.continueOnError opts of
            None \<Rightarrow> True
          | Some b \<Rightarrow> b),
       onFallback = FallbackChainOptions.onFallback opts \<rparr>"

definition new_FallbackChain ::
  "'cb FallbackChainOptions \<Rightarrow> ('r, 'v, 'cb) FallbackChain" where
  "new_FallbackChain opts =
     \<lparr> items = [], options = required_options opts, listeners = [] \<rparr>"

text \<open>
  \<^verbatim>\<open>chain.on(event, listener)\<close>, inherited from \<^verbatim>\<open>EventEmitter\<close> (\<^verbatim>\<open>addListener\<close> is its
  other name).
\<close>

definition addListener ::
  "string \<Rightarrow> ('r, 'v, 'cb) FallbackChain \<Rightarrow> ('r, 'v, 'cb) FallbackChain" where
  "addListener event c = c\<lparr> listeners := listeners c @ [event] \<rparr>"

text \<open>
  \<^verbatim>\<open>add\<close> pushes the item and sorts the array with the comparator
  \<^verbatim>\<open>a.priority - b.priority\<close>. \<^verbatim>\<open>Array.prototype.sort\<close> is a stable sort
  (ECMAScript 2019), as is \<^const>\<open>sort_key\<close>.
\<close>

definition add ::
  "('r, 'v) Chainable \<Rightarrow> ('r, 'v, 'cb) FallbackChain \<Rightarrow> ('r, 'v, 'cb) FallbackChain" where
  "add item c = c\<lparr> items := sort_key priority (items c @ [item]) \<rparr>"

definition remove ::
  "string \<Rightarrow> ('r, 'v, 'cb) FallbackChain \<Rightarrow> ('r, 'v, 'cb) FallbackChain" where
  "remove n c = c\<lparr> items := filter (\<lambda>item. name item \<noteq> n) (items c) \<rparr>"

definition getItems :: "('r, 'v, 'cb) FallbackChain \<Rightarrow> ('r, 'v) Chainable list" where
  "getItems c = items c"

definition get :: "string \<Rightarrow> ('r, 'v, 'cb) FallbackChain \<Rightarrow> ('r, 'v) Chainable option" where
  "get n c = find (\<lambda>item. name item = n) (items c)"

definition createFallbackChain ::
  "('r, 'v) Chainable list \<Rightarrow> 'cb FallbackChainOptions \<Rightarrow> ('r, 'v, 'cb) FallbackChain" where
  "createFallbackChain its opts = fold add its (new_FallbackChain opts)"

section \<open>Execution\<close>

subsection \<open>The race against the timer\<close>

text \<open>
  The delay Node's \<^verbatim>\<open>setTimeout\<close> gives a timer: a delay below 1 or above 2147483647
  is set to 1 millisecond.
\<close>

definition setTimeout_delay :: "int \<Rightarrow> int" where
  "setTimeout_delay ms = (if ms < 1 \<or> 2147483647 < ms then 1 else ms)"

text \<open>
  \<^verbatim>\<open>Promise.race([fn(request), timer])\<close>, where the timer is created by
  \<^verbatim>\<open>setTimeout(..., this.options.timeoutPerItem)\<close> and rejects with
  \<^verbatim>\<open>new Error('Timeout')\<close> when it fires. The race settles as the promise that settles
  first does, so it always settles. A provider that settles no later than the timer
  fires wins (its promise is created first). The result is \<open>Inr\<close> of the value, or
  \<open>Inl\<close> of what the \<^verbatim>\<open>await\<close> throws.
\<close>

definition executeWithTimeout ::
  "('r, 'v, 'cb) FallbackChain \<Rightarrow> ('r \<Rightarrow> 'v promise) \<Rightarrow> 'r \<Rightarrow> thrown + 'v" where
  "executeWithTimeout c fn request =
     (case fn request of
        Resolves t v \<Rightarrow>
          if int t \<le> setTimeout_delay (timeoutPerItem (options c)) then Inr v
          else Inl (Thrown_Error (Error ''Timeout''))
      | Rejects t e \<Rightarrow>
          if int t \<le> setTimeout_delay (timeoutPerItem (options c)) then Inl e
          else Inl (Thrown_Error (Error ''Timeout''))
      | Pending \<Rightarrow> Inl (Thrown_Error (Error ''Timeout'')))"

subsection \<open>The log of a run\<close>

text \<open>
  What a run of \<^verbatim>\<open>execute\<close> does to the outside is kept as a log, in order: the calls
  of the providers' capabilities, the calls of \<^verbatim>\<open>this.emit\<close> with their payloads, and
  the calls of the \<^verbatim>\<open>onFallback\<close> callback. Every entry is paired with the loop index
  \<open>i\<close> at which it happens (names need not be unique, indices are).
\<close>

text \<open>
  Modelled from the spec: the listeners of the events and the caller's \<^verbatim>\<open>onFallback\<close>
  are not code of this repository. Following section 6 of the specification (no
  subscriber can veto or alter execution), a listener and the callback return
  normally when they are called. An entry \<open>Emit_...\<close> records the call of \<^verbatim>\<open>this.emit\<close>,
  whether or not the event has listeners.
\<close>

datatype event =
    Call_healthCheck
  | Call_execute
  | Emit_skipped string string
  | Emit_success string nat
  | Emit_error string js_error
  | Call_onFallback string string
  | Emit_fallback string string

type_synonym log = "(nat \<times> event) list"

text \<open>
  How the promise returned by \<^verbatim>\<open>execute\<close> ends: it resolves with a value, it rejects
  with a thrown value, or it never settles (an awaited health check stays pending).
\<close>

datatype 'v outcome = Returns 'v | Throws thrown | Never_settles

text \<open>How one pass through the loop body ends: the loop goes on, or the call is over.\<close>

datatype 'v control = Continue "js_error option" | Exit "'v outcome"

text \<open>\<^verbatim>\<open>error instanceof Error ? error : new Error(String(error))\<close>\<close>

fun to_Error :: "thrown \<Rightarrow> js_error" where
  "to_Error (Thrown_Error e) = e"
| "to_Error (Thrown_Value s) = Error s"

text \<open>
  \<^verbatim>\<open>this.emit('error', { name, error })\<close> as Node's \<^verbatim>\<open>EventEmitter\<close> does it: with a
  listener for \<^verbatim>\<open>'error'\<close> registered the listeners are called and \<^verbatim>\<open>emit\<close> returns
  (\<open>None\<close>); with none, \<^verbatim>\<open>emit\<close> throws an \<^verbatim>\<open>ERR_UNHANDLED_ERROR\<close> (the payload is not an
  instance of \<^verbatim>\<open>Error\<close>). The other three events are not special: their \<^verbatim>\<open>emit\<close>
  returns with or without listeners.
\<close>

definition emit_error :: "('r, 'v, 'cb) FallbackChain \<Rightarrow> string \<Rightarrow> js_error \<Rightarrow> thrown option" where
  "emit_error c n e =
     (if ''error'' \<in> set (listeners c) then None
      else Some (Thrown_Error (ERR_UNHANDLED_ERROR n e)))"

subsection \<open>The loop body\<close>

text \<open>
  The \<^verbatim>\<open>try\<close> statement of the loop body at index \<open>i\<close>, with its \<^verbatim>\<open>catch\<close> block.
  An item without \<^verbatim>\<open>execute\<close> falls through to the next pass. What \<^verbatim>\<open>emit('error', ...)\<close>
  throws inside the \<^verbatim>\<open>catch\<close> block leaves \<^verbatim>\<open>execute\<close> at once: the lines after it (the
  fallback and the test of \<^verbatim>\<open>continueOnError\<close>) are not reached.
\<close>

definition try_item ::
  "('r, 'v, 'cb) FallbackChain \<Rightarrow> 'r \<Rightarrow> nat \<Rightarrow> js_error option \<Rightarrow> log \<times> 'v control" where
  "try_item c request i lastError =
     (let item = items c ! i in
      case Chainable.execute item of
        None \<Rightarrow> ([], Continue lastError)
      | Some fn \<Rightarrow>
          (case executeWithTimeout c fn request of
             Inr result \<Rightarrow>
               ([(i, Call_execute), (i, Emit_success (name item) i)], Exit (Returns result))
           | Inl error \<Rightarrow>
               (let lastError' = to_Error error in
                case emit_error c (name item) lastError' of
                  Some unhandled \<Rightarrow>
                    ([(i, Call_execute), (i, Emit_error (name item) lastError')],
                     Exit (Throws unhandled))
                | None \<Rightarrow>
                    (let fallback =
                       (if i < length (items c) - 1
                        then (let nextItem = items c ! (i + 1) in
                              [(i, Call_onFallback (name item) (name nextItem)),
                               (i, Emit_fallback (name item) (name nextItem))])
                        else [])
                     in ((i, Call_execute) # (i, Emit_error (name item) lastError') # fallback,
                         if \<not> continueOnError (options c)
                         then Exit (Throws (Thrown_Error lastError'))
                         else Continue (Some lastError'))))))"

text \<open>
  The whole loop body: the health check, awaited outside the \<^verbatim>\<open>try\<close> statement, then
  the \<^verbatim>\<open>try\<close> statement. A health check that rejects makes the \<^verbatim>\<open>await\<close> throw where
  nothing catches it; one that stays pending suspends the call for ever.
\<close>

definition iteration ::
  "('r, 'v, 'cb) FallbackChain \<Rightarrow> 'r \<Rightarrow> nat \<Rightarrow> js_error option \<Rightarrow> log \<times> 'v control" where
  "iteration c request i lastError =
     (let item = items c ! i in
      case healthCheck item of
        None \<Rightarrow> try_item c request i lastError
      | Some (Resolves t healthy) \<Rightarrow>
          if \<not> healthy
          then ([(i, Call_healthCheck), (i, Emit_skipped (name item) ''unhealthy'')],
                Continue lastError)
          else (case try_item c request i lastError of
                  (evs, k) \<Rightarrow> ((i, Call_healthCheck) # evs, k))
      | Some (Rejects t e) \<Rightarrow> ([(i, Call_healthCheck)], Exit (Throws e))
      | Some Pending \<Rightarrow> ([(i, Call_healthCheck)], Exit Never_settles))"

subsection \<open>The loop and \<^verbatim>\<open>execute\<close>\<close>

text \<open>
  The \<^verbatim>\<open>for\<close> loop from index \<open>i\<close> on with the current \<^verbatim>\<open>lastError\<close>, and the
  \<^verbatim>\<open>throw\<close> after it.
\<close>

function execute_from ::
  "('r, 'v, 'cb) FallbackChain \<Rightarrow> 'r \<Rightarrow> nat \<Rightarrow> js_error option \<Rightarrow> log \<times> 'v outcome" where
  "execute_from c request i lastError =
     (if i < length (items c) then
        (case iteration c request i lastError of
           (evs, Exit out) \<Rightarrow> (evs, out)
         | (evs, Continue lastError') \<Rightarrow>
             (case execute_from c request (i + 1) lastError' of
                (rest, out) \<Rightarrow> (evs @ rest, out)))
      else
        ([], Throws (Thrown_Error
               (case lastError of
                  Some e \<Rightarrow> e
                | None \<Rightarrow> Error ''All items in fallback chain failed''))))"
  by pat_completeness auto
termination
  by (relation "measure (\<lambda>(c, request, i, lastError). length (items c) - i)") auto

declare execute_from.simps [simp del]

definition execute :: "('r, 'v, 'cb) FallbackChain \<Rightarrow> 'r \<Rightarrow> log \<times> 'v outcome" where
  "execute c request = execute_from c request 0 None"

section \<open>The items array in a store\<close>

text \<open>
  \<^verbatim>\<open>getItems\<close> returns \<^verbatim>\<open>[...this.items]\<close>, and what that means depends on which arrays
  are shared. Here arrays and provider objects live in a store: an array is a list
  of references to provider objects, and a reference is an index into the store. The
  chain object holds a reference to its array in \<^verbatim>\<open>this.items\<close>. Allocation appends to
  the store.
\<close>

record ('r, 'v) heap =
  objects :: "('r, 'v) Chainable list"
  arrays :: "nat list list"

record 'cb FallbackChain_object =
  items_ref :: nat
  options_field :: "'cb RequiredOptions"
  listeners_field :: "string list"

text \<open>The field initialiser \<^verbatim>\<open>items = []\<close> and the constructor.\<close>

definition heap_new ::
  "'cb FallbackChainOptions \<Rightarrow> ('r, 'v) heap \<Rightarrow> 'cb FallbackChain_object \<times> ('r, 'v) heap" where
  "heap_new opts h =
     (\<lparr> items_ref = length (arrays h), options_field = required_options opts,
        listeners_field = [] \<rparr>,
      h\<lparr> arrays := arrays h @ [[]] \<rparr>)"

text \<open>
  \<^verbatim>\<open>push\<close> and \<^verbatim>\<open>sort\<close> change the array in place; \<^verbatim>\<open>filter\<close> and the spread
  \<^verbatim>\<open>[...this.items]\<close> allocate a new array, which \<^verbatim>\<open>remove\<close> assigns to \<^verbatim>\<open>this.items\<close> and
  \<^verbatim>\<open>getItems\<close> returns.
\<close>

definition heap_add ::
  "nat \<Rightarrow> 'cb FallbackChain_object \<Rightarrow> ('r, 'v) heap \<Rightarrow> ('r, 'v) heap" where
  "heap_add item this h =
     h\<lparr> arrays := (arrays h)[items_ref this :=
           sort_key (\<lambda>a. priority (objects h ! a)) (arrays h ! items_ref this @ [item])] \<rparr>"

definition heap_remove ::
  "string \<Rightarrow> 'cb FallbackChain_object \<Rightarrow> ('r, 'v) heap \<Rightarrow> 'cb FallbackChain_object \<times> ('r, 'v) heap" where
  "heap_remove n this h =
     (this\<lparr> items_ref := length (arrays h) \<rparr>,
      h\<lparr> arrays := arrays h @
            [filter (\<lambda>a. name (objects h ! a) \<noteq> n) (arrays h ! items_ref this)] \<rparr>)"

definition heap_getItems ::
  "'cb FallbackChain_object \<Rightarrow> ('r, 'v) heap \<Rightarrow> nat \<times> ('r, 'v) heap" where
  "heap_getItems this h =
     (length (arrays h), h\<lparr> arrays := arrays h @ [arrays h ! items_ref this] \<rparr>)"

text \<open>
  What a caller can do to an array it holds a reference to: replace its content by
  any other (assignments to elements, \<^verbatim>\<open>push\<close>, \<^verbatim>\<open>pop\<close>, \<^verbatim>\<open>sort\<close>, \<^verbatim>\<open>length = 0\<close>). The
  provider objects the elements refer to are not copied by \<^verbatim>\<open>getItems\<close>; writes to
  those objects are not writes to the snapshot.
\<close>

definition write_array :: "nat \<Rightarrow> nat list \<Rightarrow> ('r, 'v) heap \<Rightarrow> ('r, 'v) heap" where
  "write_array r xs h = h\<lparr> arrays := (arrays h)[r := xs] \<rparr>"

text \<open>The chain, as the sections above model it, that a chain object stands for in a store.\<close>

definition view :: "'cb FallbackChain_object \<Rightarrow> ('r, 'v) heap \<Rightarrow> ('r, 'v, 'cb) FallbackChain" where
  "view this h =
     \<lparr> items = map (\<lambda>a. objects h ! a) (arrays h ! items_ref this),
       options = options_field this,
       listeners = listeners_field this \<rparr>"

section \<open>Observations on a run\<close>

text \<open>What the log says about entry \<open>i\<close>: its operation was invoked, its probe was called.\<close>

definition invoked :: "log \<Rightarrow> nat \<Rightarrow> bool" where
  "invoked l i = ((i, Call_execute) \<in> set l)"

definition health_checked :: "log \<Rightarrow> nat \<Rightarrow> bool" where
  "health_checked l i = ((i, Call_healthCheck) \<in> set l)"

text \<open>Everything that happened during pass \<open>i\<close> of the loop, in order.\<close>

definition events_at :: "log \<Rightarrow> nat \<Rightarrow> log" where
  "events_at l i = filter (\<lambda>x. fst x = i) l"

section \<open>What the providers do, read off their promises\<close>

text \<open>
  The notions of the specification, stated on the providers themselves and on the
  timer, not through the functions of the chain.

  An entry is healthy when it has no probe or its probe resolves to true, and
  unhealthy when its probe resolves to false (a probe that rejects or stays pending
  is neither).
\<close>

definition healthy :: "('r, 'v) Chainable \<Rightarrow> bool" where
  "healthy item =
     (case healthCheck item of
        None \<Rightarrow> True
      | Some (Resolves t b) \<Rightarrow> b
      | Some (Rejects t e) \<Rightarrow> False
      | Some Pending \<Rightarrow> False)"

definition unhealthy :: "('r, 'v) Chainable \<Rightarrow> bool" where
  "unhealthy item =
     (case healthCheck item of
        None \<Rightarrow> False
      | Some (Resolves t b) \<Rightarrow> \<not> b
      | Some (Rejects t e) \<Rightarrow> False
      | Some Pending \<Rightarrow> False)"

text \<open>
  The operation of the entry completes successfully before its timeout: the promise it
  returns for the request resolves, at an instant no later than the one at which the
  timer set to \<open>timeoutPerItem\<close> fires. The result is the value it resolves with.
\<close>

definition succeeds :: "('r, 'v, 'cb) FallbackChain \<Rightarrow> 'r \<Rightarrow> ('r, 'v) Chainable \<Rightarrow> 'v option" where
  "succeeds c request item =
     (case Chainable.execute item of
        None \<Rightarrow> None
      | Some fn \<Rightarrow>
          (case fn request of
             Resolves t v \<Rightarrow>
               if int t \<le> setTimeout_delay (timeoutPerItem (options c)) then Some v else None
           | Rejects t e \<Rightarrow> None
           | Pending \<Rightarrow> None))"

text \<open>
  The operation of the entry fails or times out: the promise rejects in time (the
  error recorded is the rejection, made an \<^verbatim>\<open>Error\<close>), or the timer fires before the
  promise settles (the error recorded is \<open>Timeout\<close>).
\<close>

definition fails :: "('r, 'v, 'cb) FallbackChain \<Rightarrow> 'r \<Rightarrow> ('r, 'v) Chainable \<Rightarrow> js_error option" where
  "fails c request item =
     (case Chainable.execute item of
        None \<Rightarrow> None
      | Some fn \<Rightarrow>
          (case fn request of
             Resolves t v \<Rightarrow>
               if int t \<le> setTimeout_delay (timeoutPerItem (options c)) then None
               else Some (Error ''Timeout'')
           | Rejects t e \<Rightarrow>
               if int t \<le> setTimeout_delay (timeoutPerItem (options c)) then Some (to_Error e)
               else Some (Error ''Timeout'')
           | Pending \<Rightarrow> Some (Error ''Timeout'')))"

text \<open>
  The loop moves on from an entry to the next one: the entry is unhealthy, or it is
  healthy and has no operation, or it is healthy and its operation does not succeed
  while the chain continues on errors and has a listener for \<^verbatim>\<open>'error'\<close>.
\<close>

definition passes :: "('r, 'v, 'cb) FallbackChain \<Rightarrow> 'r \<Rightarrow> ('r, 'v) Chainable \<Rightarrow> bool" where
  "passes c request item =
     (unhealthy item \<or>
      (healthy item \<and>
         (case Chainable.execute item of
            None \<Rightarrow> True
          | Some fn \<Rightarrow>
              succeeds c request item = None \<and> continueOnError (options c) \<and>
              ''error'' \<in> set (listeners c))))"

text \<open>The loop arrives at index \<open>i\<close>: every entry before it is passed.\<close>

definition reached :: "('r, 'v, 'cb) FallbackChain \<Rightarrow> 'r \<Rightarrow> nat \<Rightarrow> bool" where
  "reached c request i =
     (i < length (items c) \<and> list_all (passes c request) (take i (items c)))"

text \<open>
  In the run with log \<open>l\<close>, the operation of entry \<open>i\<close> was invoked and completed
  successfully before its timeout with the given value (\<open>completed\<close>), or was invoked
  and failed or timed out, the given error being the one recorded for it (\<open>failed\<close>).
\<close>

definition completed :: "('r, 'v, 'cb) FallbackChain \<Rightarrow> 'r \<Rightarrow> log \<Rightarrow> nat \<Rightarrow> 'v option" where
  "completed c request l i =
     (if invoked l i then succeeds c request (items c ! i) else None)"

definition failed :: "('r, 'v, 'cb) FallbackChain \<Rightarrow> 'r \<Rightarrow> log \<Rightarrow> nat \<Rightarrow> js_error option" where
  "failed c request l i =
     (if invoked l i then fails c request (items c ! i) else None)"

text \<open>The errors recorded for the entries that were invoked and failed, in the chain's order.\<close>

definition failures :: "('r, 'v, 'cb) FallbackChain \<Rightarrow> 'r \<Rightarrow> log \<Rightarrow> js_error list" where
  "failures c request l = List.map_filter (failed c request l) [0..<length (items c)]"

text \<open>The health check of the entry settles with a boolean (it neither rejects nor stays pending).\<close>

definition probe_resolves :: "('r, 'v) Chainable \<Rightarrow> bool" where
  "probe_resolves item =
     (case healthCheck item of Some (Resolves t b) \<Rightarrow> True | _ \<Rightarrow> False)"

text \<open>
  The error thrown after the loop, given the errors recorded from some index on and
  the value of \<^verbatim>\<open>lastError\<close> on arriving there.
\<close>

definition final_error :: "js_error list \<Rightarrow> js_error option \<Rightarrow> js_error" where
  "final_error fs le =
     (if fs = [] then (case le of Some e \<Rightarrow> e | None \<Rightarrow> Error ''All items in fallback chain failed'')
      else last fs)"

text \<open>
  The timer settles first: it fires while the promise of the operation is still
  pending.
\<close>

definition timer_first :: "('r, 'v, 'cb) FallbackChain \<Rightarrow> 'v promise \<Rightarrow> bool" where
  "timer_first c p =
     (case p of
        Resolves t v \<Rightarrow> setTimeout_delay (timeoutPerItem (options c)) < int t
      | Rejects t e \<Rightarrow> setTimeout_delay (timeoutPerItem (options c)) < int t
      | Pending \<Rightarrow> True)"

text \<open>The chain with the operation of entry \<open>i\<close> replaced.\<close>

definition with_execute ::
  "('r, 'v, 'cb) FallbackChain \<Rightarrow> nat \<Rightarrow> ('r \<Rightarrow> 'v promise) \<Rightarrow> ('r, 'v, 'cb) FallbackChain" where
  "with_execute c i fn =
     c\<lparr> items := (items c)[i := (items c ! i)\<lparr> Chainable.execute := Some fn \<rparr>] \<rparr>"

section \<open>Sequences of registrations\<close>

datatype ('r, 'v) mutation = Add "('r, 'v) Chainable" | Remove string

fun apply_mutation ::
  "('r, 'v) mutation \<Rightarrow> ('r, 'v, 'cb) FallbackChain \<Rightarrow> ('r, 'v, 'cb) FallbackChain" where
  "apply_mutation (Add item) c = add item c"
| "apply_mutation (Remove n) c = remove n c"

text \<open>
  The reference the ordering claim compares with: the entries in the order of their
  insertion, an entry leaving when its name is removed. No sorting happens here.
\<close>

fun record_mutation ::
  "('r, 'v) mutation \<Rightarrow> ('r, 'v) Chainable list \<Rightarrow> ('r, 'v) Chainable list" where
  "record_mutation (Add item) xs = xs @ [item]"
| "record_mutation (Remove n) xs = filter (\<lambda>item. name item \<noteq> n) xs"

definition insertion_order :: "('r, 'v) mutation list \<Rightarrow> ('r, 'v) Chainable list" where
  "insertion_order ms = fold record_mutation ms []"

section \<open>Example chains\<close>

definition default_options :: "unit FallbackChainOptions" where
  "default_options =
     \<lparr> FallbackChainOptions.timeoutPerItem = None, continueOnError = None, onFallback = None \<rparr>"

text \<open>
  The providers of the scenarios of the specification: \<open>A\<close> succeeds, \<open>B\<close> is tried before
  it and fails, \<open>C\<close> is unhealthy, \<open>D\<close> needs 500 ms; and \<open>E\<close>, whose health check rejects.
\<close>

definition provider_A :: "(string, string) Chainable" where
  "provider_A =
     \<lparr> name = ''A'', priority = 2,
       Chainable.execute = Some (\<lambda>request. Resolves 10 (''A:'' @ request)),
       healthCheck = None \<rparr>"

definition provider_B :: "(string, string) Chainable" where
  "provider_B =
     \<lparr> name = ''B'', priority = 1,
       Chainable.execute = Some (\<lambda>request. Rejects 5 (Thrown_Value ''boom'')),
       healthCheck = Some (Resolves 1 True) \<rparr>"

definition provider_C :: "(string, string) Chainable" where
  "provider_C =
     \<lparr> name = ''C'', priority = 1,
       Chainable.execute = Some (\<lambda>request. Resolves 10 (''C:'' @ request)),
       healthCheck = Some (Resolves 1 False) \<rparr>"

definition provider_D :: "(string, string) Chainable" where
  "provider_D =
     \<lparr> name = ''D'', priority = 1,
       Chainable.execute = Some (\<lambda>request. Resolves 500 (''D:'' @ request)),
       healthCheck = None \<rparr>"

definition provider_E :: "(string, string) Chainable" where
  "provider_E =
     \<lparr> name = ''E'', priority = 3,
       Chainable.execute = Some (\<lambda>request. Resolves 10 (''E:'' @ request)),
       healthCheck = Some (Rejects 3 (Thrown_Error (Error ''probe down''))) \<rparr>"

text \<open>
  Chains built as the README builds them, with no listener registered, and the same
  chains after \<^verbatim>\<open>chain.on('error', ...)\<close>.
\<close>

definition chain_BA :: "(string, string, unit) FallbackChain" where
  "chain_BA = createFallbackChain [provider_A, provider_B] default_options"


definition chain_BA_stop :: "(string, string, unit) FallbackChain" where
  "chain_BA_stop =
     createFallbackChain [provider_A, provider_B]
       (default_options\<lparr> FallbackChainOptions.continueOnError := Some False \<rparr>)"

definition chain_B :: "(string, string, unit) FallbackChain" where
  "chain_B = createFallbackChain [provider_B] default_options"

definition chain_BE_heard :: "(string, string, unit) FallbackChain" where
  "chain_BE_heard =
     addListener ''error'' (createFallbackChain [provider_B, provider_E] default_options)"


definition chain_DA :: "(string, string, unit) FallbackChain" where
  "chain_DA =
     createFallbackChain [provider_D, provider_A]
       (default_options\<lparr> FallbackChainOptions.timeoutPerItem := Some 100 \<rparr>)"

definition chain_E :: "(string, string, unit) FallbackChain" where
  "chain_E = createFallbackChain [provider_E] default_options"

text \<open>A store in which a chain of \<open>B\<close> and \<open>A\<close> has been built.\<close>

definition heap_0 :: "(string, string) heap" where
  "heap_0 = \<lparr> objects = [provider_A, provider_B], arrays = [] \<rparr>"

definition this_BA :: "unit FallbackChain_object" where
  "this_BA = fst (heap_new default_options heap_0)"

definition heap_BA :: "(string, string) heap" where
  "heap_BA = heap_add 1 this_BA (heap_add 0 this_BA (snd (heap_new default_options heap_0)))"

section \<open>Properties of the loop\<close>

subsection \<open>One pass\<close>

lemmas body_defs = iteration_def try_item_def emit_error_def Let_def
lemmas race_defs = executeWithTimeout_def succeeds_def fails_def
lemmas body_splits = option.splits promise.splits sum.splits if_splits prod.splits

lemma iteration_index: "(j, e) \<in> set (fst (iteration c r i le)) \<Longrightarrow> j = i"
  by (auto simp: body_defs split: body_splits)

lemma iteration_log: "fst (iteration c r i le) = fst (iteration c r i None)"
  by (auto simp: body_defs split: body_splits)

lemma iteration_Exit_indep:
  "snd (iteration c r i le) = Exit out \<longleftrightarrow> snd (iteration c r i None) = Exit out"
  by (auto simp: body_defs split: body_splits)

lemma iteration_invoked_iff:
  "(i, Call_execute) \<in> set (fst (iteration c r i le)) \<longleftrightarrow>
   healthy (items c ! i) \<and> Chainable.execute (items c ! i) \<noteq> None"
  by (auto simp: body_defs healthy_def split: body_splits)



lemma iteration_Continue_iff:
  "(\<exists>le'. snd (iteration c r i le) = Continue le') \<longleftrightarrow> passes c r (items c ! i)"
  by (auto simp: body_defs race_defs healthy_def unhealthy_def passes_def split: body_splits)



lemma iteration_probe_rejects:
  "healthCheck (items c ! i) = Some (Rejects t e) \<Longrightarrow>
   iteration c r i le = ([(i, Call_healthCheck)], Exit (Throws e))"
  by (simp add: iteration_def)

lemma iteration_probe_pending:
  "healthCheck (items c ! i) = Some Pending \<Longrightarrow>
   iteration c r i le = ([(i, Call_healthCheck)], Exit Never_settles)"
  by (simp add: iteration_def)

lemma iteration_failed:
  assumes "healthy (items c ! i)" and "fails c r (items c ! i) = Some err"
  shows "iteration c r i le =
     ((if healthCheck (items c ! i) = None then [] else [(i, Call_healthCheck)]) @
      [(i, Call_execute), (i, Emit_error (name (items c ! i)) err)] @
      (if ''error'' \<in> set (listeners c) \<and> Suc i < length (items c)
       then [(i, Call_onFallback (name (items c ! i)) (name (items c ! Suc i))),
             (i, Emit_fallback (name (items c ! i)) (name (items c ! Suc i)))]
       else []),
      if ''error'' \<notin> set (listeners c)
      then Exit (Throws (Thrown_Error (ERR_UNHANDLED_ERROR (name (items c ! i)) err)))
      else if continueOnError (options c) then Continue (Some err)
      else Exit (Throws (Thrown_Error err)))"
  using assms
  by (auto simp: body_defs race_defs healthy_def less_diff_conv split: body_splits)

subsection \<open>Induction along the loop and decomposition of a run\<close>

lemma execute_from_Exit:
  "i < length (items c) \<Longrightarrow> iteration c r i le = (evs, Exit out) \<Longrightarrow>
   execute_from c r i le = (evs, out)"
  by (subst execute_from.simps) simp

lemma execute_from_Continue:
  "i < length (items c) \<Longrightarrow> iteration c r i le = (evs, Continue le') \<Longrightarrow>
   execute_from c r i le =
     (evs @ fst (execute_from c r (Suc i) le'), snd (execute_from c r (Suc i) le'))"
  by (subst execute_from.simps) (simp split: prod.splits)

lemma execute_from_end:
  "\<not> i < length (items c) \<Longrightarrow>
   execute_from c r i le =
     ([], Throws (Thrown_Error (case le of Some e \<Rightarrow> e
                                | None \<Rightarrow> Error ''All items in fallback chain failed'')))"
  by (subst execute_from.simps) simp

lemma execute_from_index:
  "(j, e) \<in> set (fst (execute_from c r i le)) \<Longrightarrow> i \<le> j \<and> j < length (items c)"
proof (induction c r i le rule: execute_from.induct)
  case (1 c r i le)
  show ?case
  proof (cases "i < length (items c)")
    case False
    with "1.prems" show ?thesis by (simp add: execute_from_end)
  next
    case True
    obtain evs k where it: "iteration c r i le = (evs, k)" by (cases "iteration c r i le")
    show ?thesis
    proof (cases k)
      case (Exit out)
      with True it "1.prems" iteration_index[of j e c r i le] show ?thesis
        by (simp add: execute_from_Exit)
    next
      case (Continue le')
      with True it "1.prems" have "(j, e) \<in> set evs \<or> (j, e) \<in> set (fst (execute_from c r (Suc i) le'))"
        by (simp add: execute_from_Continue)
      then show ?thesis
      proof
        assume "(j, e) \<in> set evs"
        with it iteration_index[of j e c r i le] True show ?thesis by simp
      next
        assume "(j, e) \<in> set (fst (execute_from c r (Suc i) le'))"
        with "1.IH"[OF True it[symmetric] Continue] show ?thesis by simp
      qed
    qed
  qed
qed

lemma execute_from_induct [case_names at_end stops goes_on]:
  assumes "\<And>i le. \<not> i < length (items c) \<Longrightarrow> P i le"
    and "\<And>i le evs out. i < length (items c) \<Longrightarrow> iteration c r i le = (evs, Exit out) \<Longrightarrow> P i le"
    and "\<And>i le evs le'. i < length (items c) \<Longrightarrow> iteration c r i le = (evs, Continue le') \<Longrightarrow>
           P (Suc i) le' \<Longrightarrow> P i le"
  shows "P i le"
proof (induction "length (items c) - i" arbitrary: i le)
  case 0
  then show ?case using assms(1) by simp
next
  case (Suc n i le)
  then have lt: "i < length (items c)" by simp
  obtain evs k where it: "iteration c r i le = (evs, k)" by (cases "iteration c r i le")
  show ?case
  proof (cases k)
    case (Exit out)
    with lt it show ?thesis using assms(2) by simp
  next
    case (Continue le')
    have "P (Suc i) le'" using Suc by simp
    with lt it Continue show ?thesis using assms(3) by simp
  qed
qed

lemma execute_from_reach:
  "(k, e) \<in> set (fst (execute_from c r i le)) \<Longrightarrow>
   \<exists>pre le'. (\<forall>x\<in>set pre. fst x < k) \<and>
     execute_from c r i le = (pre @ fst (execute_from c r k le'), snd (execute_from c r k le'))"
proof (induction i le rule: execute_from_induct[of c _ r])
  case (at_end i le)
  then show ?case by (simp add: execute_from_end)
next
  case (stops i le evs out)
  then have "k = i" using iteration_index[of k e c r i le] by (simp add: execute_from_Exit)
  then show ?case by (intro exI[of _ "[]"] exI[of _ le]) simp
next
  case (goes_on i le evs le')
  show ?case
  proof (cases "k = i")
    case True
    then show ?thesis by (intro exI[of _ "[]"] exI[of _ le]) simp
  next
    case False
    have "(k, e) \<notin> set evs" using False goes_on(2) iteration_index[of k e c r i le] by auto
    with goes_on have "(k, e) \<in> set (fst (execute_from c r (Suc i) le'))"
      by (simp add: execute_from_Continue)
    with goes_on obtain pre le'' where p: "\<forall>x\<in>set pre. fst x < k"
      "execute_from c r (Suc i) le' = (pre @ fst (execute_from c r k le''), snd (execute_from c r k le''))"
      by blast
    have "i < k" using \<open>(k, e) \<in> set (fst (execute_from c r (Suc i) le'))\<close> execute_from_index[of k e c r "Suc i" le'] by simp
    then have "\<forall>x\<in>set (evs @ pre). fst x < k"
      using p(1) goes_on(2) iteration_index[of _ _ c r i le] by auto
    moreover have "execute_from c r i le = ((evs @ pre) @ fst (execute_from c r k le''), snd (execute_from c r k le''))"
      using goes_on(1,2) p(2) by (simp add: execute_from_Continue)
    ultimately show ?thesis by blast
  qed
qed

lemma events_at_execute_from:
  "i < length (items c) \<Longrightarrow> events_at (fst (execute_from c r i le)) i = fst (iteration c r i le)"
proof -
  assume lt: "i < length (items c)"
  obtain evs k where it: "iteration c r i le = (evs, k)" by (cases "iteration c r i le")
  have a: "filter (\<lambda>x. fst x = i) evs = evs"
    using it iteration_index[of _ _ c r i le] by (auto simp: filter_id_conv)
  have b: "filter (\<lambda>x. fst x = i) (fst (execute_from c r (Suc i) le')) = []" for le'
    by (auto simp: filter_empty_conv dest: execute_from_index)
  show ?thesis
    using lt it a b by (cases k) (simp_all add: events_at_def execute_from_Exit execute_from_Continue)
qed

lemma events_at_append_lower:
  "\<forall>x\<in>set pre. fst x < k \<Longrightarrow> events_at (pre @ l) k = events_at l k"
  by (auto simp: events_at_def filter_empty_conv)

lemma run_reach:
  assumes "(k, e) \<in> set (fst (execute c r))"
  shows "\<exists>pre le'. (\<forall>x\<in>set pre. fst x < k) \<and>
     execute c r = (pre @ fst (execute_from c r k le'), snd (execute_from c r k le'))"
  using assms execute_from_reach[of k e c r 0 None] by (simp add: execute_def)

lemma run_index: "(k, e) \<in> set (fst (execute c r)) \<Longrightarrow> k < length (items c)"
  using execute_from_index[of k e c r 0 None] by (simp add: execute_def)

lemma run_events_at:
  assumes "(k, e) \<in> set (fst (execute c r))"
  shows "events_at (fst (execute c r)) k = fst (iteration c r k None)"
proof -
  from run_reach[OF assms] obtain pre le' where p: "\<forall>x\<in>set pre. fst x < k"
    "execute c r = (pre @ fst (execute_from c r k le'), snd (execute_from c r k le'))" by blast
  have "events_at (fst (execute c r)) k = events_at (fst (execute_from c r k le')) k"
    using p by (simp add: events_at_append_lower)
  also have "\<dots> = fst (iteration c r k le')"
    using run_index[OF assms] by (rule events_at_execute_from)
  finally show ?thesis using iteration_log[of c r k le'] by simp
qed

lemma run_exit:
  assumes "(k, e) \<in> set (fst (execute c r))" and "snd (iteration c r k None) = Exit out"
  shows "snd (execute c r) = out \<and> (\<forall>x\<in>set (fst (execute c r)). fst x \<le> k)"
proof -
  from run_reach[OF assms(1)] obtain pre le' where p: "\<forall>x\<in>set pre. fst x < k"
    "execute c r = (pre @ fst (execute_from c r k le'), snd (execute_from c r k le'))" by blast
  have "snd (iteration c r k le') = Exit out" using assms(2) iteration_Exit_indep[of c r k le' out] by simp
  then have it: "iteration c r k le' = (fst (iteration c r k le'), Exit out)" by (metis prod.collapse)
  have ef: "execute_from c r k le' = (fst (iteration c r k le'), out)"
    using execute_from_Exit[OF run_index[OF assms(1)] it] .
  have "\<forall>x\<in>set (fst (iteration c r k le')). fst x \<le> k"
    by (auto dest: iteration_index)
  with p ef show ?thesis by (auto simp: less_imp_le)
qed

lemma run_invoked_iteration:
  "invoked (fst (execute c r)) k \<Longrightarrow> (k, Call_execute) \<in> set (fst (iteration c r k None))"
proof -
  assume a: "invoked (fst (execute c r)) k"
  then have m: "(k, Call_execute) \<in> set (fst (execute c r))" by (simp add: invoked_def)
  then have "(k, Call_execute) \<in> set (events_at (fst (execute c r)) k)" by (simp add: events_at_def)
  then show ?thesis using run_events_at[OF m] by simp
qed

subsection \<open>Which entries a run reaches\<close>

lemma execute_from_log_iff:
  "(k, e) \<in> set (fst (execute_from c r i le)) \<longleftrightarrow>
   i \<le> k \<and> k < length (items c) \<and> (\<forall>j. i \<le> j \<and> j < k \<longrightarrow> passes c r (items c ! j)) \<and>
   (k, e) \<in> set (fst (iteration c r k None))"
proof (induction i le rule: execute_from_induct[of c _ r])
  case (at_end i le)
  then show ?case by (auto simp: execute_from_end)
next
  case (stops i le evs out)
  have np: "\<not> passes c r (items c ! i)"
    using stops(2) iteration_Continue_iff[of c r i le] by auto
  have evs: "evs = fst (iteration c r i None)" using stops(2) iteration_log[of c r i le] by simp
  have "(k, e) \<in> set evs \<longleftrightarrow> k = i \<and> (k, e) \<in> set (fst (iteration c r k None))"
    using evs iteration_index[of k e c r i None] by auto
  moreover have "(i \<le> k \<and> (\<forall>j. i \<le> j \<and> j < k \<longrightarrow> passes c r (items c ! j))) \<longleftrightarrow> k = i"
    using np by (metis le_less_linear le_refl less_le_not_le nat_less_le)
  ultimately show ?case using stops(1,2) by (auto simp: execute_from_Exit)
next
  case (goes_on i le evs le')
  have p: "passes c r (items c ! i)"
    using goes_on(2) iteration_Continue_iff[of c r i le] by auto
  have evs: "evs = fst (iteration c r i None)" using goes_on(2) iteration_log[of c r i le] by simp
  have a: "(k, e) \<in> set evs \<longleftrightarrow> k = i \<and> (k, e) \<in> set (fst (iteration c r k None))"
    using evs iteration_index[of k e c r i None] by auto
  have b: "(\<forall>j. i \<le> j \<and> j < k \<longrightarrow> passes c r (items c ! j)) \<longleftrightarrow>
           (\<forall>j. Suc i \<le> j \<and> j < k \<longrightarrow> passes c r (items c ! j))"
    using p by (metis Suc_leI le_neq_implies_less Suc_leD)
  have "(k, e) \<in> set (fst (execute_from c r i le)) \<longleftrightarrow>
        (k, e) \<in> set evs \<or> (k, e) \<in> set (fst (execute_from c r (Suc i) le'))"
    using goes_on(1,2) by (simp add: execute_from_Continue)
  also have "\<dots> \<longleftrightarrow> (k = i \<and> (k, e) \<in> set (fst (iteration c r k None))) \<or>
       (Suc i \<le> k \<and> k < length (items c) \<and>
        (\<forall>j. Suc i \<le> j \<and> j < k \<longrightarrow> passes c r (items c ! j)) \<and>
        (k, e) \<in> set (fst (iteration c r k None)))"
    using a goes_on(3) by simp
  also have "\<dots> \<longleftrightarrow> i \<le> k \<and> k < length (items c) \<and>
       (\<forall>j. i \<le> j \<and> j < k \<longrightarrow> passes c r (items c ! j)) \<and>
       (k, e) \<in> set (fst (iteration c r k None))"
    unfolding b using goes_on(1) by (cases "k = i") auto
  finally show ?case .
qed


lemma reached_iff:
  "reached c r k \<longleftrightarrow> k < length (items c) \<and> (\<forall>j<k. passes c r (items c ! j))"
  by (auto simp: reached_def list_all_length)

lemma run_log_iff:
  "(k, e) \<in> set (fst (execute c r)) \<longleftrightarrow> reached c r k \<and> (k, e) \<in> set (fst (iteration c r k None))"
  using execute_from_log_iff[of k e c r 0 None] by (auto simp: execute_def reached_iff)


lemma run_invoked_iff:
  "invoked (fst (execute c r)) k \<longleftrightarrow>
   reached c r k \<and> healthy (items c ! k) \<and> Chainable.execute (items c ! k) \<noteq> None"
  by (simp add: invoked_def run_log_iff iteration_invoked_iff)



subsection \<open>What a failure does, with and without a listener for the error event\<close>

text \<open>
  The pass of an entry that was executed and failed, and how the call ends there: on
  a chain without a listener for \<^verbatim>\<open>'error'\<close> the call throws \<^verbatim>\<open>ERR_UNHANDLED_ERROR\<close> and the
  fallback is never reached; with one, the fallback follows and \<open>continueOnError\<close>
  decides. With a listener, and with health checks that resolve, a call in which no
  operation succeeds throws the last recorded failure or the generic error. A timeout
  is handled as a rejection with \<open>Error ''Timeout''\<close> is, on every chain.
\<close>

lemma race_by_timer:
  "executeWithTimeout c fn r =
     (if timer_first c (fn r) then Inl (Thrown_Error (Error ''Timeout''))
      else (case fn r of
              Resolves t v \<Rightarrow> Inr v
            | Rejects t e \<Rightarrow> Inl e
            | Pending \<Rightarrow> Inl (Thrown_Error (Error ''Timeout''))))"
  by (simp add: executeWithTimeout_def timer_first_def split: promise.splits)

lemma iteration_Continue_cases:
  assumes "iteration c r i le = (evs, Continue le')"
  shows "(le' = le \<and> (i, Call_execute) \<notin> set evs) \<or>
         (\<exists>e. fails c r (items c ! i) = Some e \<and> (i, Call_execute) \<in> set evs \<and> le' = Some e)"
  using assms
  by (auto simp: body_defs race_defs split: body_splits)

lemma iteration_Exit_cases:
  assumes "iteration c r i le = (evs, Exit out)" and "''error'' \<in> set (listeners c)"
  shows "(\<exists>v. out = Returns v \<and> succeeds c r (items c ! i) = Some v \<and> (i, Call_execute) \<in> set evs) \<or>
         ((i, Call_healthCheck) \<in> set evs \<and> \<not> probe_resolves (items c ! i)) \<or>
         (\<exists>e. fails c r (items c ! i) = Some e \<and> (i, Call_execute) \<in> set evs \<and>
              out = Throws (Thrown_Error e))"
  using assms
  by (auto simp: body_defs race_defs probe_resolves_def split: body_splits)

lemma failedD:
  "failed c r l i = Some err \<Longrightarrow> invoked l i \<and> fails c r (items c ! i) = Some err"
  by (auto simp: failed_def split: if_splits)

lemma failed_entry_run:
  assumes "execute c r = (l, out)" and "failed c r l i = Some err"
  shows "events_at l i =
     (if healthCheck (items c ! i) = None then [] else [(i, Call_healthCheck)]) @
     [(i, Call_execute), (i, Emit_error (name (items c ! i)) err)] @
     (if ''error'' \<in> set (listeners c) \<and> Suc i < length (items c)
      then [(i, Call_onFallback (name (items c ! i)) (name (items c ! Suc i))),
            (i, Emit_fallback (name (items c ! i)) (name (items c ! Suc i)))]
      else [])"
    and "''error'' \<notin> set (listeners c) \<Longrightarrow>
         out = Throws (Thrown_Error (ERR_UNHANDLED_ERROR (name (items c ! i)) err)) \<and>
         (\<forall>j>i. \<not> health_checked l j \<and> \<not> invoked l j)"
    and "''error'' \<in> set (listeners c) \<Longrightarrow> \<not> continueOnError (options c) \<Longrightarrow>
         out = Throws (Thrown_Error err) \<and> (\<forall>j>i. \<not> health_checked l j \<and> \<not> invoked l j)"
proof -
  have l: "l = fst (execute c r)" and out: "out = snd (execute c r)" using assms(1) by simp_all
  from failedD[OF assms(2)] have inv: "invoked l i" and f: "fails c r (items c ! i) = Some err"
    by simp_all
  have m: "(i, Call_execute) \<in> set (fst (execute c r))" using inv l by (simp add: invoked_def)
  have h: "healthy (items c ! i)" using inv l by (simp add: run_invoked_iff)
  note it = iteration_failed[OF h f, of None]
  show "events_at l i =
     (if healthCheck (items c ! i) = None then [] else [(i, Call_healthCheck)]) @
     [(i, Call_execute), (i, Emit_error (name (items c ! i)) err)] @
     (if ''error'' \<in> set (listeners c) \<and> Suc i < length (items c)
      then [(i, Call_onFallback (name (items c ! i)) (name (items c ! Suc i))),
            (i, Emit_fallback (name (items c ! i)) (name (items c ! Suc i)))]
      else [])"
    using run_events_at[OF m] it l by simp
  show "out = Throws (Thrown_Error (ERR_UNHANDLED_ERROR (name (items c ! i)) err)) \<and>
         (\<forall>j>i. \<not> health_checked l j \<and> \<not> invoked l j)"
    if "''error'' \<notin> set (listeners c)"
  proof -
    have "snd (iteration c r i None) =
        Exit (Throws (Thrown_Error (ERR_UNHANDLED_ERROR (name (items c ! i)) err)))"
      using it that by simp
    from run_exit[OF m this] l out show ?thesis
      by (auto simp: health_checked_def invoked_def)
  qed
  show "out = Throws (Thrown_Error err) \<and> (\<forall>j>i. \<not> health_checked l j \<and> \<not> invoked l j)"
    if "''error'' \<in> set (listeners c)" "\<not> continueOnError (options c)"
  proof -
    have "snd (iteration c r i None) = Exit (Throws (Thrown_Error err))"
      using it that by simp
    from run_exit[OF m this] l out show ?thesis
      by (auto simp: health_checked_def invoked_def)
  qed
qed

lemma map_filter_None: "(\<And>x. x \<in> set xs \<Longrightarrow> f x = None) \<Longrightarrow> List.map_filter f xs = []"
  by (induction xs) simp_all

lemma map_filter_cong': "(\<And>x. x \<in> set xs \<Longrightarrow> f x = g x) \<Longrightarrow> List.map_filter f xs = List.map_filter g xs"
  by (induction xs) (auto split: option.splits)

lemma map_filter_empty_iff: "List.map_filter f xs = [] \<longleftrightarrow> (\<forall>x\<in>set xs. f x = None)"
  by (induction xs) (auto split: option.splits)

lemma execute_from_exhausted:
  "''error'' \<in> set (listeners c) \<Longrightarrow>
   (\<forall>k. completed c r (fst (execute_from c r i le)) k = None) \<Longrightarrow>
   (\<forall>k. health_checked (fst (execute_from c r i le)) k \<longrightarrow> probe_resolves (items c ! k)) \<Longrightarrow>
   snd (execute_from c r i le) =
     Throws (Thrown_Error
       (final_error (List.map_filter (failed c r (fst (execute_from c r i le))) [i..<length (items c)]) le))"
proof (induction i le rule: execute_from_induct[of c _ r])
  case (at_end i le)
  then show ?case by (simp add: execute_from_end final_error_def)
next
  case (stops i le evs out)
  have L: "execute_from c r i le = (evs, out)" using stops(1,2) by (rule execute_from_Exit)
  have idx: "\<And>j e. (j, e) \<in> set evs \<Longrightarrow> j = i" using iteration_index[of _ _ c r i le] stops(2) by simp
  from iteration_Exit_cases[OF stops(2) stops(3)] show ?case
  proof (elim disjE exE conjE)
    fix v assume "out = Returns v" "succeeds c r (items c ! i) = Some v" "(i, Call_execute) \<in> set evs"
    then have "completed c r evs i = Some v" by (simp add: completed_def invoked_def)
    with stops(4) L show ?thesis by simp
  next
    assume "(i, Call_healthCheck) \<in> set evs" "\<not> probe_resolves (items c ! i)"
    with stops(5) L show ?thesis by (auto simp: health_checked_def)
  next
    fix e assume e: "fails c r (items c ! i) = Some e" "(i, Call_execute) \<in> set evs"
      "out = Throws (Thrown_Error e)"
    have "failed c r evs i = Some e" using e by (simp add: failed_def invoked_def)
    moreover have "List.map_filter (failed c r evs) [Suc i..<length (items c)] = []"
      by (rule map_filter_None) (auto simp: failed_def invoked_def dest: idx)
    ultimately have "List.map_filter (failed c r evs) [i..<length (items c)] = [e]"
      using stops(1) by (simp add: upt_conv_Cons)
    then show ?thesis using L e(3) by (simp add: final_error_def)
  qed
next
  case (goes_on i le evs le')
  let ?rest = "fst (execute_from c r (Suc i) le')"
  have L: "execute_from c r i le = (evs @ ?rest, snd (execute_from c r (Suc i) le'))"
    using goes_on(1,2) by (rule execute_from_Continue)
  have idx: "\<And>j e. (j, e) \<in> set evs \<Longrightarrow> j = i" using iteration_index[of _ _ c r i le] goes_on(2) by simp
  have idx': "\<And>j e. (j, e) \<in> set ?rest \<Longrightarrow> Suc i \<le> j" using execute_from_index[of _ _ c r "Suc i" le'] by simp
  have inv: "invoked (evs @ ?rest) k = invoked ?rest k" if "k \<noteq> i" for k
    using that by (auto simp: invoked_def dest: idx)
  have ninv: "\<not> invoked ?rest i" by (auto simp: invoked_def dest: idx')
  have h1: "\<forall>k. completed c r ?rest k = None"
  proof
    fix k
    show "completed c r ?rest k = None"
    proof (cases "k = i")
      case True
      then show ?thesis using ninv by (simp add: completed_def)
    next
      case False
      from goes_on(5) L have "completed c r (evs @ ?rest) k = None" by simp
      then show ?thesis using inv[OF False] by (simp add: completed_def)
    qed
  qed
  have h2: "\<forall>k. health_checked ?rest k \<longrightarrow> probe_resolves (items c ! k)"
    using goes_on(6) L by (auto simp: health_checked_def)
  have IH: "snd (execute_from c r (Suc i) le') =
     Throws (Thrown_Error (final_error (List.map_filter (failed c r ?rest) [Suc i..<length (items c)]) le'))"
    using goes_on(3)[OF goes_on(4) h1 h2] .
  have tl: "List.map_filter (failed c r (evs @ ?rest)) [Suc i..<length (items c)] =
            List.map_filter (failed c r ?rest) [Suc i..<length (items c)]"
    by (rule map_filter_cong') (auto simp: failed_def inv)
  from iteration_Continue_cases[OF goes_on(2)] show ?case
  proof (elim disjE exE conjE)
    assume a: "le' = le" "(i, Call_execute) \<notin> set evs"
    then have "failed c r (evs @ ?rest) i = None" using ninv by (simp add: failed_def invoked_def)
    then have "List.map_filter (failed c r (evs @ ?rest)) [i..<length (items c)] =
               List.map_filter (failed c r ?rest) [Suc i..<length (items c)]"
      using goes_on(1) tl by (simp add: upt_conv_Cons)
    then show ?thesis using L IH a(1) by simp
  next
    fix e assume a: "fails c r (items c ! i) = Some e" "(i, Call_execute) \<in> set evs" "le' = Some e"
    then have "failed c r (evs @ ?rest) i = Some e" by (simp add: failed_def invoked_def)
    then have "List.map_filter (failed c r (evs @ ?rest)) [i..<length (items c)] =
               e # List.map_filter (failed c r ?rest) [Suc i..<length (items c)]"
      using goes_on(1) tl by (simp add: upt_conv_Cons)
    then show ?thesis using L IH a(3) by (simp add: final_error_def)
  qed
qed

lemma exhausted_surfaces_last_failure:
  assumes "execute c r = (l, out)"
    and "''error'' \<in> set (listeners c)"
    and "\<forall>i<length (items c). completed c r l i = None"
    and "\<forall>i<length (items c). health_checked l i \<longrightarrow> probe_resolves (items c ! i)"
  shows "out = Throws (Thrown_Error
                 (if failures c r l = [] then Error ''All items in fallback chain failed''
                  else last (failures c r l)))"
proof -
  have l: "l = fst (execute_from c r 0 None)" and out: "out = snd (execute_from c r 0 None)"
    using assms(1) by (simp_all add: execute_def)
  have idx: "k < length (items c)" if "(k, e) \<in> set l" for k e
    using that l execute_from_index[of k e c r 0 None] by simp
  have h1: "\<forall>k. completed c r l k = None"
  proof
    fix k show "completed c r l k = None"
      using assms(3) idx[of k Call_execute]
      by (cases "k < length (items c)") (auto simp: completed_def invoked_def)
  qed
  have h2: "\<forall>k. health_checked l k \<longrightarrow> probe_resolves (items c ! k)"
    using assms(4) idx[of _ Call_healthCheck] by (auto simp: health_checked_def)
  have "out = Throws (Thrown_Error (final_error (failures c r l) None))"
    using execute_from_exhausted[of c r 0 None] assms(2) h1 h2 l out by (simp add: failures_def)
  then show ?thesis by (simp add: final_error_def)
qed

lemma execute_from_cong:
  assumes len: "length (items c') = length (items c)"
    and it: "\<And>j le. j < length (items c) \<Longrightarrow> iteration c' r j le = iteration c r j le"
  shows "execute_from c' r i le = execute_from c r i le"
proof (induction i le rule: execute_from_induct[of c _ r])
  case (at_end i le)
  then show ?case using len by (simp add: execute_from_end)
next
  case (stops i le evs out)
  then have "iteration c' r i le = (evs, Exit out)" using it by simp
  with stops len show ?case by (simp add: execute_from_Exit)
next
  case (goes_on i le evs le')
  then have "iteration c' r i le = (evs, Continue le')" using it by simp
  with goes_on len show ?case by (simp add: execute_from_Continue)
qed

lemma with_execute_simps:
  "length (items (with_execute c i fn)) = length (items c)"
  "options (with_execute c i fn) = options c"
  "listeners (with_execute c i fn) = listeners c"
  "j < length (items c) \<Longrightarrow> name (items (with_execute c i fn) ! j) = name (items c ! j)"
  "j < length (items c) \<Longrightarrow> healthCheck (items (with_execute c i fn) ! j) = healthCheck (items c ! j)"
  "j < length (items c) \<Longrightarrow> j \<noteq> i \<Longrightarrow>
     Chainable.execute (items (with_execute c i fn) ! j) = Chainable.execute (items c ! j)"
  "i < length (items c) \<Longrightarrow> Chainable.execute (items (with_execute c i fn) ! i) = Some fn"
  by (cases "i < length (items c)"; auto simp: with_execute_def nth_list_update)+

lemma executeWithTimeout_with_execute:
  "executeWithTimeout (with_execute c i fn) g r = executeWithTimeout c g r"
  by (simp add: executeWithTimeout_def with_execute_simps split: promise.splits)

lemma try_item_by_race:
  "try_item c r i le =
     (case map_option (\<lambda>fn. executeWithTimeout c fn r) (Chainable.execute (items c ! i)) of
        None \<Rightarrow> ([], Continue le)
      | Some (Inr result) \<Rightarrow>
          ([(i, Call_execute), (i, Emit_success (name (items c ! i)) i)], Exit (Returns result))
      | Some (Inl error) \<Rightarrow>
          (if ''error'' \<notin> set (listeners c)
           then ([(i, Call_execute), (i, Emit_error (name (items c ! i)) (to_Error error))],
                 Exit (Throws (Thrown_Error
                   (ERR_UNHANDLED_ERROR (name (items c ! i)) (to_Error error)))))
           else
             ((i, Call_execute) # (i, Emit_error (name (items c ! i)) (to_Error error)) #
                (if Suc i < length (items c)
                 then [(i, Call_onFallback (name (items c ! i)) (name (items c ! Suc i))),
                       (i, Emit_fallback (name (items c ! i)) (name (items c ! Suc i)))]
                 else []),
              if \<not> continueOnError (options c)
              then Exit (Throws (Thrown_Error (to_Error error)))
              else Continue (Some (to_Error error)))))"
  by (auto simp: try_item_def emit_error_def Let_def less_diff_conv split: option.splits sum.splits)

lemma iteration_with_execute:
  assumes "i < length (items c)" and "j < length (items c)"
    and "map_option (\<lambda>g. executeWithTimeout c g r) (Some fn) =
         map_option (\<lambda>g. executeWithTimeout c g r) (Chainable.execute (items c ! i))"
  shows "iteration (with_execute c i fn) r j le = iteration c r j le"
proof -
  have a: "map_option (\<lambda>g. executeWithTimeout (with_execute c i fn) g r)
             (Chainable.execute (items (with_execute c i fn) ! j)) =
           map_option (\<lambda>g. executeWithTimeout c g r) (Chainable.execute (items c ! j))"
  proof (cases "j = i")
    case True
    then show ?thesis
      using assms(1,3) by (simp add: with_execute_simps executeWithTimeout_with_execute)
  next
    case False
    then show ?thesis
      using assms(2)
      by (simp add: with_execute_simps executeWithTimeout_with_execute cong: map_option_cong)
  qed
  have t: "try_item (with_execute c i fn) r j le = try_item c r j le"
    unfolding try_item_by_race a using assms(2)
    by (auto simp: with_execute_simps split: option.splits sum.splits)
  show ?thesis
    unfolding iteration_def Let_def t using assms(2)
    by (simp add: with_execute_simps split: option.splits promise.splits)
qed

lemma timeout_as_rejection:
  assumes "i < length (items c)" and "Chainable.execute (items c ! i) = Some fn"
    and "timer_first c (fn r)"
  shows "executeWithTimeout c fn r = Inl (Thrown_Error (Error ''Timeout''))"
    and "execute (with_execute c i (\<lambda>_. Rejects 0 (Thrown_Error (Error ''Timeout'')))) r =
         execute c r"
proof -
  let ?g = "\<lambda>_ :: 'a. Rejects 0 (Thrown_Error (Error ''Timeout'')) :: 'b promise"
  show race: "executeWithTimeout c fn r = Inl (Thrown_Error (Error ''Timeout''))"
    using assms(3) by (simp add: race_by_timer)
  have "executeWithTimeout c ?g r = Inl (Thrown_Error (Error ''Timeout''))"
    by (simp add: executeWithTimeout_def setTimeout_delay_def)
  then have eq: "map_option (\<lambda>g. executeWithTimeout c g r) (Some ?g) =
         map_option (\<lambda>g. executeWithTimeout c g r) (Chainable.execute (items c ! i))"
    using race assms(2) by simp
  have "execute_from (with_execute c i ?g) r 0 None = execute_from c r 0 None"
    by (rule execute_from_cong)
       (simp_all add: with_execute_simps iteration_with_execute[OF assms(1) _ eq])
  then show "execute (with_execute c i ?g) r = execute c r" by (simp add: execute_def)
qed

subsection \<open>Registration keeps the order\<close>

lemma sorted_apply_mutation:
  "sorted (map priority (items c)) \<Longrightarrow> sorted (map priority (items (apply_mutation m c)))"
  by (cases m) (simp_all add: add_def remove_def sorted_filter)

lemma sorted_fold_apply_mutation:
  "sorted (map priority (items c)) \<Longrightarrow> sorted (map priority (items (fold apply_mutation ms c)))"
  by (induction ms arbitrary: c) (simp_all add: sorted_apply_mutation)

lemma stable_apply_mutation:
  assumes "filter (\<lambda>x. priority x = k) (items c) = filter (\<lambda>x. priority x = k) xs"
  shows "filter (\<lambda>x. priority x = k) (items (apply_mutation m c)) =
         filter (\<lambda>x. priority x = k) (record_mutation m xs)"
proof (cases m)
  case (Add item)
  then show ?thesis using assms by (simp add: add_def sort_key_stable)
next
  case (Remove n)
  have "filter (\<lambda>x. priority x = k) (filter (\<lambda>item. name item \<noteq> n) (items c)) =
        filter (\<lambda>item. name item \<noteq> n) (filter (\<lambda>x. priority x = k) (items c))"
    by (simp add: conj_commute)
  also have "\<dots> = filter (\<lambda>item. name item \<noteq> n) (filter (\<lambda>x. priority x = k) xs)"
    using assms by simp
  also have "\<dots> = filter (\<lambda>x. priority x = k) (filter (\<lambda>item. name item \<noteq> n) xs)"
    by (simp add: conj_commute)
  finally show ?thesis using Remove by (simp add: remove_def)
qed

lemma stable_fold_apply_mutation:
  "filter (\<lambda>x. priority x = k) (items c) = filter (\<lambda>x. priority x = k) xs \<Longrightarrow>
   filter (\<lambda>x. priority x = k) (items (fold apply_mutation ms c)) =
   filter (\<lambda>x. priority x = k) (fold record_mutation ms xs)"
  by (induction ms arbitrary: c xs) (simp_all add: stable_apply_mutation)

subsection \<open>The store and the chain it stands for\<close>

lemma map_insort_key:
  "map f (insort_key (\<lambda>a. g (f a)) x xs) = insort_key g (f x) (map f xs)"
  by (induction xs) simp_all

lemma map_sort_key: "map f (sort_key (\<lambda>a. g (f a)) xs) = sort_key g (map f xs)"
  by (induction xs) (simp_all add: map_insort_key)

lemma view_heap_add:
  "items_ref this < length (arrays h) \<Longrightarrow>
   view this (heap_add a this h) = add (objects h ! a) (view this h)"
  by (simp add: view_def heap_add_def add_def map_sort_key[of "\<lambda>a. objects h ! a" priority])

lemma view_heap_remove:
  "heap_remove n this h = (this', h') \<Longrightarrow> view this' h' = remove n (view this h)"
  by (auto simp: view_def heap_remove_def remove_def filter_map comp_def)

lemma view_heap_getItems:
  "items_ref this < length (arrays h) \<Longrightarrow> heap_getItems this h = (r, h') \<Longrightarrow>
   map (\<lambda>a. objects h' ! a) (arrays h' ! r) = getItems (view this h) \<and> view this h' = view this h"
  by (auto simp: view_def heap_getItems_def getItems_def nth_append)

lemma view_heap_new:
  "heap_new opts h = (this, h') \<Longrightarrow> view this h' = new_FallbackChain opts"
  by (auto simp: heap_new_def view_def new_FallbackChain_def)

section \<open>The claims\<close>



text \<open>
  C2 fails in the code. In the chain of \<open>B\<close> alone, built as the README builds it, \<open>B\<close> is
  executed and fails with the recorded error \<open>boom\<close>, and what the call throws is the
  \<^verbatim>\<open>ERR_UNHANDLED_ERROR\<close> of \<^verbatim>\<open>emit('error', ...)\<close>, not that failure. In the chain of \<open>B\<close> and
  \<open>E\<close> with a listener for \<^verbatim>\<open>'error'\<close>, no operation succeeds, \<open>B\<close> fails with \<open>boom\<close>, and the
  call throws the rejection of the health check of \<open>E\<close>.
\<close>

theorem last_failure_not_surfaced:
  "execute chain_B ''req'' =
     ([(0, Call_healthCheck), (0, Call_execute), (0, Emit_error ''B'' (Error ''boom''))],
      Throws (Thrown_Error (ERR_UNHANDLED_ERROR ''B'' (Error ''boom'')))) \<and>
   failures chain_B ''req'' (fst (execute chain_B ''req'')) = [Error ''boom''] \<and>
   execute chain_BE_heard ''req'' =
     ([(0, Call_healthCheck), (0, Call_execute), (0, Emit_error ''B'' (Error ''boom'')),
       (0, Call_onFallback ''B'' ''E''), (0, Emit_fallback ''B'' ''E''),
       (1, Call_healthCheck)],
      Throws (Thrown_Error (Error ''probe down''))) \<and>
   failures chain_BE_heard ''req'' (fst (execute chain_BE_heard ''req'')) = [Error ''boom''] \<and>
   completed chain_BE_heard ''req'' (fst (execute chain_BE_heard ''req'')) 0 = None \<and>
   completed chain_BE_heard ''req'' (fst (execute chain_BE_heard ''req'')) 1 = None"
  by code_simp

text \<open>
  C3 fails in the code. In the chain of \<open>B\<close> and \<open>A\<close> with \<open>continueOnError\<close> false and no
  listener for \<^verbatim>\<open>'error'\<close>, the failure of \<open>B\<close> does end the call at once and \<open>A\<close> is never
  tried, but what the call throws is the \<^verbatim>\<open>ERR_UNHANDLED_ERROR\<close> of \<^verbatim>\<open>emit('error', ...)\<close>,
  not the error of \<open>B\<close>.
\<close>

theorem stop_surfaces_unhandled_error:
  "\<not> continueOnError (options chain_BA_stop) \<and>
   execute chain_BA_stop ''req'' =
     ([(0, Call_healthCheck), (0, Call_execute), (0, Emit_error ''B'' (Error ''boom''))],
      Throws (Thrown_Error (ERR_UNHANDLED_ERROR ''B'' (Error ''boom'')))) \<and>
   failed chain_BA_stop ''req'' (fst (execute chain_BA_stop ''req'')) 0 = Some (Error ''boom'') \<and>
   snd (execute chain_BA_stop ''req'') \<noteq> Throws (Thrown_Error (Error ''boom''))"
  by code_simp

text \<open>
  C4 fails in the code. In the chain of \<open>D\<close> and \<open>A\<close> with \<open>timeoutPerItem\<close> 100 and no
  listener for \<^verbatim>\<open>'error'\<close>, the timer settles before the operation of \<open>D\<close>, the attempt
  fails with \<open>Timeout\<close> and \<^verbatim>\<open>emit('error', ...)\<close> is called with it, but no fallback
  bookkeeping follows: \<open>onFallback\<close> is not called, no fallback notification is emitted,
  and the call throws \<^verbatim>\<open>ERR_UNHANDLED_ERROR\<close>.
\<close>

theorem timeout_without_fallback:
  "map name (items chain_DA) = [''D'', ''A''] \<and>
   timer_first chain_DA (Resolves 500 ''D:req'') \<and>
   executeWithTimeout chain_DA (\<lambda>request. Resolves 500 (''D:'' @ request)) ''req'' =
     Inl (Thrown_Error (Error ''Timeout'')) \<and>
   execute chain_DA ''req'' =
     ([(0, Call_execute), (0, Emit_error ''D'' (Error ''Timeout''))],
      Throws (Thrown_Error (ERR_UNHANDLED_ERROR ''D'' (Error ''Timeout''))))"
  by code_simp

text \<open>
  C5 fails in the code. In the chain of \<open>B\<close> and \<open>A\<close>, built as the README builds it, \<open>B\<close>
  fails and is not the last entry, yet \<open>onFallback\<close> is not called and no fallback
  notification is emitted: \<^verbatim>\<open>emit('error', ...)\<close> throws before the lines that do it.
\<close>

theorem failure_without_fallback:
  "map name (items chain_BA) = [''B'', ''A''] \<and>
   execute chain_BA ''req'' =
     ([(0, Call_healthCheck), (0, Call_execute), (0, Emit_error ''B'' (Error ''boom''))],
      Throws (Thrown_Error (ERR_UNHANDLED_ERROR ''B'' (Error ''boom'')))) \<and>
   failed chain_BA ''req'' (fst (execute chain_BA ''req'')) 0 = Some (Error ''boom'') \<and>
   events_at (fst (execute chain_BA ''req'')) 0 =
     [(0, Call_healthCheck), (0, Call_execute), (0, Emit_error ''B'' (Error ''boom''))]"
  by code_simp



text \<open>
  C7 fails in the code. The health check of \<open>E\<close> rejects, and \<open>execute\<close> throws that
  rejection to its caller; no skipped notification is emitted.
\<close>

theorem probe_rejection_propagates:
  "execute chain_E ''req'' = ([(0, Call_healthCheck)], Throws (Thrown_Error (Error ''probe down'')))"
  by code_simp

text \<open>
  C8. After any sequence of \<^verbatim>\<open>add\<close> and \<^verbatim>\<open>remove\<close> calls on a new chain, \<^verbatim>\<open>getItems\<close>
  returns the entries sorted ascending by priority, and for every priority the
  entries of that priority stand in the order of their insertion.
\<close>

theorem getItems_sorted_stable:
  "sorted (map priority (getItems (fold apply_mutation ms (new_FallbackChain opts)))) \<and>
   (\<forall>k. filter (\<lambda>x. priority x = k) (getItems (fold apply_mutation ms (new_FallbackChain opts))) =
        filter (\<lambda>x. priority x = k) (insertion_order ms))"
proof -
  have e: "items (new_FallbackChain opts :: ('a, 'b, 'c) FallbackChain) = []" by (simp add: new_FallbackChain_def)
  show ?thesis
  unfolding getItems_def insertion_order_def
  using sorted_fold_apply_mutation[of "new_FallbackChain opts" ms]
    stable_fold_apply_mutation[of _ "new_FallbackChain opts" "[]" ms]
  by (simp add: e)
qed

theorem getItems_sorted_stable_witness:
  "map name (getItems (fold apply_mutation
      [Add provider_A, Add provider_B, Add provider_C, Add provider_D, Remove ''C'']
      (new_FallbackChain default_options))) = [''B'', ''D'', ''A''] \<and>
   sorted (map priority (getItems (fold apply_mutation
      [Add provider_A, Add provider_B, Add provider_C, Add provider_D, Remove ''C'']
      (new_FallbackChain default_options)))) \<and>
   map name (filter (\<lambda>x. priority x = 1) (getItems (fold apply_mutation
      [Add provider_A, Add provider_B, Add provider_C, Add provider_D, Remove ''C'']
      (new_FallbackChain default_options)))) = [''B'', ''D'']"
proof -
  have a: "map name (getItems (fold apply_mutation
      [Add provider_A, Add provider_B, Add provider_C, Add provider_D, Remove ''C'']
      (new_FallbackChain default_options))) = [''B'', ''D'', ''A'']" by code_simp
  have b: "map name (filter (\<lambda>x. priority x = 1) (insertion_order
      [Add provider_A, Add provider_B, Add provider_C, Add provider_D, Remove ''C''])) = [''B'', ''D'']"
    by code_simp
  from getItems_sorted_stable[of "[Add provider_A, Add provider_B, Add provider_C, Add provider_D, Remove ''C'']" default_options]
    a b show ?thesis by simp
qed

text \<open>
  C9. \<^verbatim>\<open>getItems\<close> returns a reference to a new array, different from the chain's own,
  that holds the chain's current sequence. Whatever is written to that array
  afterwards, the chain's array, the chain it stands for, a later \<^verbatim>\<open>execute\<close>, a later
  \<^verbatim>\<open>add\<close> and a later \<^verbatim>\<open>getItems\<close> are as they would be without the write.
\<close>

theorem getItems_snapshot_independent:
  assumes "items_ref this < length (arrays h)" and "heap_getItems this h = (r, h')"
  shows "r \<noteq> items_ref this \<and>
         r = length (arrays h) \<and>
         arrays h' ! r = arrays h ! items_ref this \<and>
         map (\<lambda>a. objects h' ! a) (arrays h' ! r) = getItems (view this h) \<and>
         (\<forall>xs. arrays (write_array r xs h') ! items_ref this = arrays h ! items_ref this) \<and>
         (\<forall>xs. view this (write_array r xs h') = view this h) \<and>
         (\<forall>xs request. execute (view this (write_array r xs h')) request =
                        execute (view this h) request) \<and>
         (\<forall>xs a. view this (heap_add a this (write_array r xs h')) =
                  view this (heap_add a this h)) \<and>
         (\<forall>xs. map (\<lambda>a. objects h ! a) (arrays (snd (heap_getItems this (write_array r xs h'))) !
                   fst (heap_getItems this (write_array r xs h'))) = getItems (view this h))"
proof -
  have r: "r = length (arrays h)" and h': "h' = h\<lparr> arrays := arrays h @ [arrays h ! items_ref this] \<rparr>"
    using assms(2) by (simp_all add: heap_getItems_def)
  have ne: "r \<noteq> items_ref this" using assms(1) r by simp
  have w: "arrays (write_array r xs h') ! items_ref this = arrays h ! items_ref this" for xs
    using assms(1) ne by (simp add: write_array_def h' r nth_append)
  have o: "objects (write_array r xs h') = objects h" for xs by (simp add: write_array_def h')
  have len: "items_ref this < length (arrays (write_array r xs h'))" for xs
    using assms(1) by (simp add: write_array_def h')
  have v: "view this (write_array r xs h') = view this h" for xs
    by (simp add: view_def w o)
  have a: "view this (heap_add a this (write_array r xs h')) = view this (heap_add a this h)" for xs a
    using view_heap_add[OF len, of a xs] view_heap_add[OF assms(1), of a] v o by simp
  have g: "map (\<lambda>a. objects h ! a) (arrays (snd (heap_getItems this (write_array r xs h'))) !
                   fst (heap_getItems this (write_array r xs h'))) = getItems (view this h)" for xs
    by (simp add: heap_getItems_def w getItems_def view_def)
  have c: "arrays h' ! r = arrays h ! items_ref this" by (simp add: h' r)
  have d: "map (\<lambda>a. objects h' ! a) (arrays h' ! r) = getItems (view this h)"
    by (simp add: h' r getItems_def view_def)
  have e: "execute (view this (write_array r xs h')) request = execute (view this h) request"
    for xs request by (simp only: v)
  from ne r c d w v e a g show ?thesis by (intro conjI allI)
qed

theorem getItems_snapshot_independent_witness:
  "items_ref this_BA < length (arrays heap_BA) \<and>
   fst (heap_getItems this_BA heap_BA) = 1 \<and>
   arrays (snd (heap_getItems this_BA heap_BA)) = [[1, 0], [1, 0]] \<and>
   arrays (write_array 1 [] (snd (heap_getItems this_BA heap_BA))) = [[1, 0], []] \<and>
   map name (items (view this_BA (write_array 1 [] (snd (heap_getItems this_BA heap_BA))))) =
     [''B'', ''A''] \<and>
   view this_BA (write_array 1 [] (snd (heap_getItems this_BA heap_BA))) = view this_BA heap_BA"
proof -
  have wf: "items_ref this_BA < length (arrays heap_BA)" by code_simp
  have g: "heap_getItems this_BA heap_BA =
    (fst (heap_getItems this_BA heap_BA), snd (heap_getItems this_BA heap_BA))" by simp
  have r: "fst (heap_getItems this_BA heap_BA) = 1" by code_simp
  have a: "arrays (snd (heap_getItems this_BA heap_BA)) = [[1, 0], [1, 0]]"
    "arrays (write_array 1 [] (snd (heap_getItems this_BA heap_BA))) = [[1, 0], []]"
    "map name (items (view this_BA heap_BA)) = [''B'', ''A'']"
    by code_simp+
  from getItems_snapshot_independent[OF wf g]
  have "\<forall>xs. view this_BA (write_array (fst (heap_getItems this_BA heap_BA)) xs
           (snd (heap_getItems this_BA heap_BA))) = view this_BA heap_BA"
    by blast
  then have v: "view this_BA (write_array 1 [] (snd (heap_getItems this_BA heap_BA))) =
      view this_BA heap_BA"
    unfolding r by blast
  have n: "map name (items (view this_BA (write_array 1 [] (snd (heap_getItems this_BA heap_BA))))) =
     [''B'', ''A'']"
    using a(3) by (simp only: v)
  from wf r a(1) a(2) n v show ?thesis by (intro conjI)
qed

text \<open>
  C10. Constructed with \<^verbatim>\<open>timeoutPerItem\<close> 0 (or absent), the chain's timeout per item
  is the default 30000; constructed with \<^verbatim>\<open>continueOnError\<close> false, the chain keeps
  false (the default true is taken for an absent value only).
\<close>

theorem constructor_defaults:
  "timeoutPerItem (options (new_FallbackChain (opts\<lparr>FallbackChainOptions.timeoutPerItem := Some 0\<rparr>))) = 30000 \<and>
   timeoutPerItem (options (new_FallbackChain (opts\<lparr>FallbackChainOptions.timeoutPerItem := None\<rparr>))) = 30000 \<and>
   continueOnError (options (new_FallbackChain (opts\<lparr>FallbackChainOptions.continueOnError := Some False\<rparr>))) = False \<and>
   continueOnError (options (new_FallbackChain (opts\<lparr>FallbackChainOptions.continueOnError := None\<rparr>))) = True"
  by (simp add: new_FallbackChain_def required_options_def)
end
